theory Spec2Isabelle
  imports Main "HOL-Library.Word"
begin

section \<open>The Voting contract (src/contract/Voting.sol)\<close>

text \<open>
  The contract has four state variables: \<open>admin\<close> (an address), the mapping
  \<open>hasVoted\<close> from addresses to booleans, the mapping \<open>votes\<close> from strings to
  \<open>uint256\<close>, and the dynamic array \<open>candidates\<close> of strings. An address is a
  160-bit word, a \<open>uint256\<close> a 256-bit word, a Solidity string a sequence of bytes
  (\<open>string\<close> is a list of 8-bit characters). A Solidity mapping has a value for
  every key, the zero value where nothing was stored, so the two mappings are total
  functions.
\<close>

type_synonym address = "160 word"
type_synonym uint256 = "256 word"

record Voting =
  admin :: address
  hasVoted :: "address \<Rightarrow> bool"
  votes :: "string \<Rightarrow> uint256"
  candidates :: "string list"

text \<open>
  A call that reverts carries either the message of a failed \<open>require\<close>
  (\<open>Error(string)\<close>) or the code of a panic (\<open>Panic(uint256)\<close>); code \<open>0x11\<close> is
  the arithmetic overflow of checked arithmetic, which the pragma \<open>^0.8.0\<close> turns on.
  The specification calls the two \<open>require\<close> failures \<open>AlreadyVoted\<close> and
  \<open>InvalidCandidate\<close>.
\<close>

datatype revert = Error string | Panic nat

abbreviation AlreadyVoted :: revert where
  "AlreadyVoted \<equiv> Error ''Already voted!''"

abbreviation InvalidCandidate :: revert where
  "InvalidCandidate \<equiv> Error ''Invalid candidate!''"

abbreviation Overflow :: revert where
  "Overflow \<equiv> Panic 0x11"

text \<open>
  The constructor runs on zeroed storage: it records the caller and stores the
  candidate list as it is given. It has no \<open>require\<close>.
\<close>

definition constructor :: "address \<Rightarrow> string list \<Rightarrow> Voting" where
  "constructor sender cands =
     \<lparr>admin = sender, hasVoted = (\<lambda>_. False), votes = (\<lambda>_. 0), candidates = cands\<rparr>"

text \<open>
  \<open>validCandidate\<close> compares strings through their \<open>keccak256\<close> digests, the Solidity
  idiom for string equality. The digest is taken as collision-free here: two
  digests are equal exactly when the byte strings are.
\<close>

definition keccak256_eq :: "string \<Rightarrow> string \<Rightarrow> bool" where
  "keccak256_eq a b \<longleftrightarrow> a = b"

text \<open>
  The \<open>for\<close> loop of \<open>validCandidate\<close>, from index \<open>i\<close> on. The array length fits a
  \<open>uint256\<close>, so the checked \<open>i++\<close> never overflows and the index is a natural
  number.
\<close>

function validCandidate_from :: "Voting \<Rightarrow> nat \<Rightarrow> string \<Rightarrow> bool" where
  "validCandidate_from s i name =
     (if i < length (candidates s) then
        (if keccak256_eq (candidates s ! i) name then True
         else validCandidate_from s (Suc i) name)
      else False)"
  by pat_completeness auto
termination
  by (relation "measure (\<lambda>(s, i, name). length (candidates s) - i)") auto

declare validCandidate_from.simps [simp del]

definition validCandidate :: "Voting \<Rightarrow> string \<Rightarrow> bool" where
  "validCandidate s name = validCandidate_from s 0 name"

text \<open>The checked postfix increment of a \<open>uint256\<close>: no result at the largest value.\<close>

definition checked_inc :: "uint256 \<Rightarrow> uint256 option" where
  "checked_inc x = (if x = - 1 then None else Some (x + 1))"

text \<open>
  \<open>vote\<close>, called by \<open>sender\<close> (\<open>msg.sender\<close>): the two \<open>require\<close>s in their order,
  then the increment of the tally, then the write of the flag. The result is the
  revert, or the storage after the last statement. The function is not payable;
  the value and the gas of a call are left out: a call carries no value and
  enough gas.
\<close>

definition vote :: "address \<Rightarrow> string \<Rightarrow> Voting \<Rightarrow> revert + Voting" where
  "vote sender candidate s =
     (if hasVoted s sender then Inl (Error ''Already voted!'')
      else if \<not> validCandidate s candidate then Inl (Error ''Invalid candidate!'')
      else case checked_inc (votes s candidate) of
             None \<Rightarrow> Inl (Panic 0x11)
           | Some n \<Rightarrow>
               Inr (s\<lparr>votes := (votes s)(candidate := n),
                      hasVoted := (hasVoted s)(sender := True)\<rparr>))"

definition getVotes :: "string \<Rightarrow> Voting \<Rightarrow> uint256" where
  "getVotes candidate s = votes s candidate"

text \<open>
  The public state variable \<open>hasVoted\<close> has a generated getter of the same name,
  which the front end calls: it is the field selector \<^const>\<open>hasVoted\<close>.
\<close>

subsection \<open>Transactions and sequences of calls\<close>

text \<open>
  A transaction that reverts leaves the storage as it was before the call;
  otherwise the storage is the one the call returns.
\<close>

definition transact :: "(Voting \<Rightarrow> revert + Voting) \<Rightarrow> Voting \<Rightarrow> Voting" where
  "transact f s = (case f s of Inl e \<Rightarrow> s | Inr s' \<Rightarrow> s')"

text \<open>
  A sequence of \<open>vote\<close> transactions, each a pair of caller and candidate name:
  \<open>run\<close> is the storage after the last of them, \<open>accepted\<close> the calls among them
  that did not revert, in order.
\<close>

fun run :: "(address \<times> string) list \<Rightarrow> Voting \<Rightarrow> Voting" where
  "run [] s = s"
| "run ((v, c) # calls) s = run calls (transact (vote v c) s)"

fun accepted :: "(address \<times> string) list \<Rightarrow> Voting \<Rightarrow> (address \<times> string) list" where
  "accepted [] s = []"
| "accepted ((v, c) # calls) s =
     (case vote v c s of
        Inl e \<Rightarrow> accepted calls s
      | Inr s' \<Rightarrow> (v, c) # accepted calls s')"

text \<open>
  The two sides of the counting invariant: the sum of the tallies over the distinct
  candidate names, and the set of the addresses whose flag is set.
\<close>

definition tally_sum :: "Voting \<Rightarrow> nat" where
  "tally_sum s = (\<Sum>c\<in>set (candidates s). unat (votes s c))"

definition voters :: "Voting \<Rightarrow> address set" where
  "voters s = {v. hasVoted s v}"

section \<open>Basic facts\<close>

lemma validCandidate_from_iff:
  "validCandidate_from s i name \<longleftrightarrow> name \<in> set (drop i (candidates s))"
proof (induction s i name rule: validCandidate_from.induct)
  case (1 s i name)
  show ?case
  proof (cases "i < length (candidates s)")
    case True
    then have d: "drop i (candidates s) = candidates s ! i # drop (Suc i) (candidates s)"
      by (simp add: Cons_nth_drop_Suc)
    show ?thesis
    proof (cases "candidates s ! i = name")
      case True
      with \<open>i < length (candidates s)\<close> d show ?thesis
        by (subst validCandidate_from.simps) (simp add: keccak256_eq_def)
    next
      case False
      with \<open>i < length (candidates s)\<close> d "1.IH" show ?thesis
        by (subst validCandidate_from.simps) (auto simp: keccak256_eq_def)
    qed
  next
    case False
    then show ?thesis
      by (subst validCandidate_from.simps) simp
  qed
qed

lemma validCandidate_iff: "validCandidate s name \<longleftrightarrow> name \<in> set (candidates s)"
  by (simp add: validCandidate_def validCandidate_from_iff)

lemma checked_inc_Some: "checked_inc x = Some y \<longleftrightarrow> x \<noteq> - 1 \<and> y = x + 1"
  by (auto simp: checked_inc_def)

lemma checked_inc_None: "checked_inc x = None \<longleftrightarrow> x = - 1"
  by (simp add: checked_inc_def)

lemma vote_Inr_iff:
  "vote v c s = Inr s' \<longleftrightarrow>
     \<not> hasVoted s v \<and> c \<in> set (candidates s) \<and> votes s c \<noteq> - 1 \<and>
     s' = s\<lparr>votes := (votes s)(c := votes s c + 1), hasVoted := (hasVoted s)(v := True)\<rparr>"
  by (auto simp: vote_def validCandidate_iff checked_inc_Some checked_inc_None
      split: option.splits)

lemma vote_Inl_iff:
  "vote v c s = Inl e \<longleftrightarrow>
     (if hasVoted s v then e = AlreadyVoted
      else if c \<notin> set (candidates s) then e = InvalidCandidate
      else votes s c = - 1 \<and> e = Overflow)"
  by (auto simp: vote_def validCandidate_iff checked_inc_Some checked_inc_None
      split: option.splits)

lemma unat_inc: "x \<noteq> - 1 \<Longrightarrow> unat (x + 1 :: uint256) = Suc (unat x)"
proof -
  assume "x \<noteq> - 1"
  then have "1 + x \<noteq> 0"
    by (simp add: add_eq_0_iff)
  then have "unat (1 + x) = Suc (unat x)"
    by (rule unatSuc)
  then show ?thesis
    by (simp add: add.commute)
qed

lemma transact_vote:
  "transact (vote v c) s =
     (if \<not> hasVoted s v \<and> c \<in> set (candidates s) \<and> votes s c \<noteq> - 1
      then s\<lparr>votes := (votes s)(c := votes s c + 1), hasVoted := (hasVoted s)(v := True)\<rparr>
      else s)"
proof (cases "vote v c s")
  case (Inl e)
  then have "transact (vote v c) s = s"
    by (simp add: transact_def)
  moreover from Inl have "hasVoted s v \<or> c \<notin> set (candidates s) \<or> votes s c = - 1"
    by (auto simp: vote_Inl_iff split: if_splits)
  ultimately show ?thesis
    by auto
next
  case (Inr s')
  then have "transact (vote v c) s = s'"
    by (simp add: transact_def)
  with Inr show ?thesis
    by (simp add: vote_Inr_iff)
qed

lemma candidates_transact [simp]: "candidates (transact (vote v c) s) = candidates s"
  by (simp add: transact_vote)

lemma admin_transact [simp]: "admin (transact (vote v c) s) = admin s"
  by (simp add: transact_vote)

lemma candidates_run [simp]: "candidates (run calls s) = candidates s"
  by (induction calls s rule: run.induct) simp_all

lemma admin_run [simp]: "admin (run calls s) = admin s"
  by (induction calls s rule: run.induct) simp_all

lemma hasVoted_transact: "hasVoted s v \<Longrightarrow> hasVoted (transact (vote v' c) s) v"
  by (simp add: transact_vote)

lemma hasVoted_run: "hasVoted s v \<Longrightarrow> hasVoted (run calls s) v"
  by (induction calls s rule: run.induct) (simp_all add: hasVoted_transact)

lemma votes_transact_other:
  "c \<notin> set (candidates s) \<Longrightarrow> votes (transact (vote v c') s) c = votes s c"
  by (auto simp: transact_vote)

lemma votes_run_other:
  "c \<notin> set (candidates s) \<Longrightarrow> votes (run calls s) c = votes s c"
  by (induction calls s rule: run.induct) (simp_all add: votes_transact_other)

lemma vote_tally_sum:
  assumes "vote v c s = Inr s'"
  shows "tally_sum s' = Suc (tally_sum s)"
proof -
  from assms have c: "c \<in> set (candidates s)" and n: "votes s c \<noteq> - 1"
    and s': "s' = s\<lparr>votes := (votes s)(c := votes s c + 1), hasVoted := (hasVoted s)(v := True)\<rparr>"
    by (simp_all add: vote_Inr_iff)
  let ?C = "set (candidates s)"
  have "tally_sum s' = (\<Sum>x\<in>?C. unat (((votes s)(c := votes s c + 1)) x))"
    by (simp add: tally_sum_def s')
  also have "\<dots> = unat (votes s c + 1) + (\<Sum>x\<in>?C - {c}. unat (votes s x))"
    using c by (simp add: sum.remove [of ?C c])
  also have "\<dots> = Suc (unat (votes s c) + (\<Sum>x\<in>?C - {c}. unat (votes s x)))"
    using n by (simp add: unat_inc)
  also have "\<dots> = Suc (tally_sum s)"
    using c by (simp add: tally_sum_def sum.remove [of ?C c])
  finally show ?thesis .
qed

lemma vote_voters:
  assumes "vote v c s = Inr s'"
  shows "voters s' = insert v (voters s)" and "v \<notin> voters s"
  using assms by (auto simp: vote_Inr_iff voters_def)

lemma run_tally_sum: "tally_sum (run calls s) = tally_sum s + length (accepted calls s)"
proof (induction calls s rule: run.induct)
  case (1 s)
  show ?case by simp
next
  case (2 v c calls s)
  then show ?case
    by (cases "vote v c s") (simp_all add: transact_def vote_tally_sum)
qed

lemma run_voters: "voters (run calls s) = voters s \<union> fst ` set (accepted calls s)"
proof (induction calls s rule: run.induct)
  case (1 s)
  show ?case by simp
next
  case (2 v c calls s)
  then show ?case
    by (cases "vote v c s") (auto simp: transact_def vote_voters)
qed

lemma accepted_fresh: "fst ` set (accepted calls s) \<inter> voters s = {}"
proof (induction calls s rule: run.induct)
  case (1 s)
  show ?case by simp
next
  case (2 v c calls s)
  then show ?case
    by (cases "vote v c s") (auto simp: transact_def vote_voters)
qed

lemma accepted_distinct: "distinct (map fst (accepted calls s))"
proof (induction calls s rule: run.induct)
  case (1 s)
  show ?case by simp
next
  case (2 v c calls s)
  show ?case
  proof (cases "vote v c s")
    case (Inl e)
    with 2 show ?thesis by (simp add: transact_def)
  next
    case (Inr s')
    with accepted_fresh [of calls s'] have "v \<notin> fst ` set (accepted calls s')"
      by (auto simp: vote_voters)
    with 2 Inr show ?thesis by (simp add: transact_def)
  qed
qed

lemma run_votes:
  "unat (votes (run calls s) name) =
     unat (votes s name) + length (filter (\<lambda>(v, c). c = name) (accepted calls s))"
proof (induction calls s rule: run.induct)
  case (1 s)
  show ?case by simp
next
  case (2 v c calls s)
  show ?case
  proof (cases "vote v c s")
    case (Inl e)
    with 2 show ?thesis by (simp add: transact_def)
  next
    case (Inr s')
    then have "unat (votes s' name) = unat (votes s name) + (if c = name then 1 else 0)"
      by (auto simp: vote_Inr_iff unat_inc)
    with 2 Inr show ?thesis by (simp add: transact_def)
  qed
qed

lemma card_voters: "card (voters s) \<le> 2 ^ 160"
proof -
  have "card (voters s) \<le> card (UNIV :: address set)"
    by (rule card_mono) simp_all
  then show ?thesis by (simp add: card_word)
qed

lemma voters_constructor [simp]: "voters (constructor a cands) = {}"
  by (simp add: voters_def constructor_def)

lemma tally_sum_constructor [simp]: "tally_sum (constructor a cands) = 0"
  by (simp add: tally_sum_def constructor_def)

lemma reachable_card:
  "card (voters (run calls (constructor a cands))) = length (accepted calls (constructor a cands))"
proof -
  let ?acc = "accepted calls (constructor a cands)"
  have "voters (run calls (constructor a cands)) = set (map fst ?acc)"
    by (simp add: run_voters)
  moreover have "card (set (map fst ?acc)) = length (map fst ?acc)"
    by (rule distinct_card) (rule accepted_distinct)
  ultimately show ?thesis
    by simp
qed

lemma reachable_votes_bound:
  "unat (votes (run calls (constructor a cands)) c) \<le> 2 ^ 160"
proof -
  let ?s = "run calls (constructor a cands)"
  have "unat (votes ?s c) = length (filter (\<lambda>(v, c'). c' = c) (accepted calls (constructor a cands)))"
    by (simp add: run_votes constructor_def)
  also have "\<dots> \<le> length (accepted calls (constructor a cands))"
    by simp
  also have "\<dots> = card (voters ?s)"
    by (simp add: reachable_card)
  also have "\<dots> \<le> 2 ^ 160"
    by (rule card_voters)
  finally show ?thesis .
qed

lemma reachable_no_overflow: "votes (run calls (constructor a cands)) c \<noteq> - 1"
proof
  assume "votes (run calls (constructor a cands)) c = - 1"
  then have "unat (votes (run calls (constructor a cands)) c) = unat (- 1 :: uint256)"
    by simp
  with reachable_votes_bound [of calls a cands c] show False
    by (simp add: unsigned_minus_1_eq_mask mask_eq_exp_minus_1)
qed

section \<open>Casting a vote\<close>

text \<open>
  C1: in every ledger state, that is in the storage after any sequence of \<open>vote\<close>
  transactions from construction, a caller \<open>v\<close> whose flag is clear who votes
  for a name \<open>c\<close> of the constructed candidate list succeeds: the checked
  increment cannot panic there, since a tally never exceeds the number of
  addresses. In the storage after the call the tally of \<open>c\<close> is its old value
  plus one and the flag of \<open>v\<close> is set. Both writes belong to the one
  transaction: a \<open>vote\<close> transaction, in any storage \<open>t\<close>, leaves the storage as
  it was or has applied both.
\<close>

theorem vote_succeeds:
  assumes "\<not> hasVoted (run calls (constructor a cands)) v" and "c \<in> set cands"
  shows "\<exists>s'. vote v c (run calls (constructor a cands)) = Inr s' \<and>
           transact (vote v c) (run calls (constructor a cands)) = s' \<and>
           unat (getVotes c s') = unat (getVotes c (run calls (constructor a cands))) + 1 \<and>
           hasVoted s' v \<and>
           (transact (vote v' c') t = t \<or>
            unat (getVotes c' (transact (vote v' c') t)) = unat (getVotes c' t) + 1 \<and>
            hasVoted (transact (vote v' c') t) v')"
proof -
  let ?s = "run calls (constructor a cands)"
  have n: "votes ?s c \<noteq> - 1"
    by (rule reachable_no_overflow)
  from assms(2) have m: "c \<in> set (candidates ?s)"
    by (simp add: constructor_def)
  let ?s' = "?s\<lparr>votes := (votes ?s)(c := votes ?s c + 1), hasVoted := (hasVoted ?s)(v := True)\<rparr>"
  from assms(1) m n have "vote v c ?s = Inr ?s'"
    by (simp only: vote_Inr_iff simp_thms)
  moreover from assms(1) m n have "transact (vote v c) ?s = ?s'"
    by (simp only: transact_vote simp_thms if_True)
  moreover from n have "unat (getVotes c ?s') = unat (getVotes c ?s) + 1"
    by (simp add: getVotes_def unat_inc)
  moreover have "hasVoted ?s' v"
    by simp
  moreover have "transact (vote v' c') t = t \<or>
      unat (getVotes c' (transact (vote v' c') t)) = unat (getVotes c' t) + 1 \<and>
      hasVoted (transact (vote v' c') t) v'"
    by (simp add: transact_vote getVotes_def unat_inc)
  ultimately show ?thesis
    by blast
qed

theorem vote_succeeds_witness:
  "\<exists>s'. vote 2 ''Bob'' (run [(1, ''Bob'')] (constructor 0 [''Alice'', ''Bob'', ''Charlie''])) = Inr s' \<and>
     unat (getVotes ''Bob'' s') = 2 \<and> hasVoted s' 2 \<and> hasVoted s' 1"
proof -
  let ?s = "run [(1, ''Bob'')] (constructor 0 [''Alice'', ''Bob'', ''Charlie''])"
  have h1: "\<not> hasVoted ?s 2"
    by (simp add: transact_vote constructor_def)
  have h2: "''Bob'' \<in> set [''Alice'', ''Bob'', ''Charlie'']"
    by simp
  have g: "unat (getVotes ''Bob'' ?s) = 1"
    by (simp add: getVotes_def transact_vote constructor_def)
  have v1: "hasVoted ?s 1"
    by (simp add: transact_vote constructor_def)
  from vote_succeeds [OF h1 h2] obtain s' where
    s': "vote 2 ''Bob'' ?s = Inr s'" "unat (getVotes ''Bob'' s') = unat (getVotes ''Bob'' ?s) + 1"
      "hasVoted s' 2"
    by blast
  from s'(1) v1 have "hasVoted s' 1"
    by (simp add: vote_Inr_iff)
  with s' g show ?thesis
    by auto
qed

section \<open>Rejected votes\<close>

text \<open>
  C3: once the flag of a voter \<open>v\<close> is set, every \<open>vote\<close> by \<open>v\<close>, at once or after
  any further calls, for a name in the candidate list or not, reverts with
  \<open>Already voted!\<close>; the flag stays set through every sequence of calls, so it
  goes from clear to set at most once and never back.
\<close>

theorem vote_twice_rejected:
  assumes "hasVoted s v"
  shows "vote v c s = Inl AlreadyVoted \<and> hasVoted (run calls s) v \<and>
         vote v c (run calls s) = Inl AlreadyVoted"
proof -
  from assms have "hasVoted (run calls s) v"
    by (rule hasVoted_run)
  with assms show ?thesis
    by (simp add: vote_def)
qed

theorem vote_twice_rejected_witness:
  "vote 1 ''Alice'' (run [(1, ''Bob'')] (constructor 0 [''Alice'', ''Bob'', ''Charlie''])) =
     Inl AlreadyVoted \<and>
   vote 1 ''Dave'' (run [(2, ''Charlie'')]
     (run [(1, ''Bob'')] (constructor 0 [''Alice'', ''Bob'', ''Charlie'']))) = Inl AlreadyVoted"
proof -
  let ?s = "run [(1, ''Bob'')] (constructor 0 [''Alice'', ''Bob'', ''Charlie''])"
  have h: "hasVoted ?s 1"
    by (simp add: transact_vote constructor_def)
  from vote_twice_rejected [OF h, of "''Alice''" "[]"]
    vote_twice_rejected [OF h, of "''Dave''" "[(2, ''Charlie'')]"]
  show ?thesis
    by simp
qed

text \<open>
  C4: a caller \<open>v\<close> whose flag is clear who votes for a name \<open>c\<close> that is not in
  the candidate list is rejected with \<open>Invalid candidate!\<close>, and the storage after
  the transaction is the storage before it: every tally and every flag is as it
  was.
\<close>

theorem vote_invalid_candidate:
  assumes "\<not> hasVoted s v" and "c \<notin> set (candidates s)"
  shows "vote v c s = Inl InvalidCandidate \<and> transact (vote v c) s = s"
  using assms by (simp add: vote_def validCandidate_iff transact_def)

theorem vote_invalid_candidate_witness:
  "vote 2 ''Dave'' (run [(1, ''Bob'')] (constructor 0 [''Alice'', ''Bob'', ''Charlie''])) =
     Inl InvalidCandidate \<and>
   transact (vote 2 ''Dave'') (run [(1, ''Bob'')] (constructor 0 [''Alice'', ''Bob'', ''Charlie''])) =
     run [(1, ''Bob'')] (constructor 0 [''Alice'', ''Bob'', ''Charlie''])"
proof -
  let ?s = "run [(1, ''Bob'')] (constructor 0 [''Alice'', ''Bob'', ''Charlie''])"
  have h1: "\<not> hasVoted ?s 2"
    by (simp add: transact_vote constructor_def)
  have h2: "''Dave'' \<notin> set (candidates ?s)"
    by (simp add: constructor_def)
  from vote_invalid_candidate [OF h1 h2] show ?thesis .
qed

section \<open>Counting\<close>

text \<open>
  C2: in the storage after any sequence of \<open>vote\<close> transactions from construction,
  accepted or rejected, the tallies of the distinct candidate names sum to the
  number of addresses whose flag is set; that number is the number of accepted
  calls of the sequence, whose callers are pairwise distinct, so the sum of
  \<open>getVotes\<close> over the candidate names is exactly the number of successful votes.
\<close>

theorem tally_sum_counts_voters:
  "(\<Sum>c\<in>set cands. unat (votes (run calls (constructor a cands)) c)) =
     card {v. hasVoted (run calls (constructor a cands)) v} \<and>
   (\<Sum>c\<in>set cands. unat (getVotes c (run calls (constructor a cands)))) =
     length (accepted calls (constructor a cands)) \<and>
   distinct (map fst (accepted calls (constructor a cands)))"
proof -
  let ?s = "run calls (constructor a cands)"
  have "tally_sum ?s = length (accepted calls (constructor a cands))"
    by (simp add: run_tally_sum)
  then have 1: "(\<Sum>c\<in>set cands. unat (votes ?s c)) = length (accepted calls (constructor a cands))"
    by (simp add: tally_sum_def constructor_def)
  have 2: "card {v. hasVoted ?s v} = length (accepted calls (constructor a cands))"
    using reachable_card [of calls a cands] by (simp add: voters_def)
  from 1 2 show ?thesis
    by (simp add: getVotes_def accepted_distinct)
qed

theorem tally_sum_counts_voters_witness:
  "(\<Sum>c\<in>set [''Alice'', ''Bob'', ''Charlie''].
      unat (getVotes c (run [(1, ''Bob''), (1, ''Alice''), (2, ''Dave''), (2, ''Charlie'')]
        (constructor 0 [''Alice'', ''Bob'', ''Charlie''])))) = 2"
proof -
  have "accepted [(1, ''Bob''), (1, ''Alice''), (2, ''Dave''), (2, ''Charlie'')]
      (constructor 0 [''Alice'', ''Bob'', ''Charlie'']) = [(1, ''Bob''), (2, ''Charlie'')]"
    by (simp add: vote_def validCandidate_iff constructor_def checked_inc_def)
  with tally_sum_counts_voters [where cands = "[''Alice'', ''Bob'', ''Charlie'']"
      and calls = "[(1, ''Bob''), (1, ''Alice''), (2, ''Dave''), (2, ''Charlie'')]" and a = 0]
  show ?thesis
    by simp
qed

text \<open>
  C10: in the storage after any sequence of \<open>vote\<close> transactions from
  construction, the tally of a name that is not in the candidate list is zero, so
  \<open>getVotes\<close> is nonzero only for names of the list.
\<close>

theorem votes_zero_outside_candidates:
  "(c \<notin> set cands \<longrightarrow> votes (run calls (constructor a cands)) c = 0) \<and>
   (getVotes c (run calls (constructor a cands)) \<noteq> 0 \<longrightarrow> c \<in> set cands)"
proof -
  have "votes (run calls (constructor a cands)) c = 0" if "c \<notin> set cands"
    using that by (simp add: votes_run_other constructor_def)
  then show ?thesis
    by (auto simp: getVotes_def)
qed

theorem votes_zero_outside_candidates_witness:
  "votes (run [(1, ''Bob''), (2, ''Dave'')] (constructor 0 [''Alice'', ''Bob'', ''Charlie''])) ''Dave'' = 0 \<and>
   getVotes ''Bob'' (run [(1, ''Bob''), (2, ''Dave'')] (constructor 0 [''Alice'', ''Bob'', ''Charlie''])) \<noteq> 0 \<and>
   ''Bob'' \<in> set [''Alice'', ''Bob'', ''Charlie'']"
proof -
  have h1: "''Dave'' \<notin> set [''Alice'', ''Bob'', ''Charlie'']"
    by simp
  have h2: "getVotes ''Bob'' (run [(1, ''Bob''), (2, ''Dave'')]
      (constructor 0 [''Alice'', ''Bob'', ''Charlie''])) \<noteq> 0"
    by (simp add: getVotes_def transact_vote constructor_def)
  from votes_zero_outside_candidates [where c = "''Dave''"
      and cands = "[''Alice'', ''Bob'', ''Charlie'']" and calls = "[(1, ''Bob''), (2, ''Dave'')]"
      and a = 0] h1
  have "votes (run [(1, ''Bob''), (2, ''Dave'')] (constructor 0 [''Alice'', ''Bob'', ''Charlie''])) ''Dave'' = 0"
    by blast
  moreover from votes_zero_outside_candidates [where c = "''Bob''"
      and cands = "[''Alice'', ''Bob'', ''Charlie'']" and calls = "[(1, ''Bob''), (2, ''Dave'')]"
      and a = 0] h2
  have "''Bob'' \<in> set [''Alice'', ''Bob'', ''Charlie'']"
    by blast
  ultimately show ?thesis
    using h2 by blast
qed

section \<open>Reading the tally\<close>

text \<open>
  C5: \<open>getVotes\<close> has no failing path and writes nothing: it is a function of the
  storage and the name alone, whose value is the stored tally of the name. Right
  after construction that is zero for every name, in the candidate list or not,
  and for a name that is not in the list it is zero after any sequence of \<open>vote\<close>
  transactions: a zero result does not tell an unknown name from a candidate
  without votes.
\<close>

theorem getVotes_reads_tally:
  "getVotes c s = votes s c \<and>
   getVotes c (constructor a cands) = 0 \<and>
   (c \<notin> set cands \<longrightarrow> getVotes c (run calls (constructor a cands)) = 0)"
  by (simp add: getVotes_def votes_run_other constructor_def)

theorem getVotes_reads_tally_witness:
  "getVotes ''Alice'' (constructor 0 [''Alice'', ''Bob'', ''Charlie'']) = 0 \<and>
   getVotes ''Dave'' (constructor 0 [''Alice'', ''Bob'', ''Charlie'']) = 0 \<and>
   getVotes ''Dave'' (run [(1, ''Bob''), (2, ''Dave'')] (constructor 0 [''Alice'', ''Bob'', ''Charlie''])) = 0"
proof -
  have h: "''Dave'' \<notin> set [''Alice'', ''Bob'', ''Charlie'']"
    by simp
  from getVotes_reads_tally [where c = "''Alice''" and a = 0
      and cands = "[''Alice'', ''Bob'', ''Charlie'']"]
    getVotes_reads_tally [where c = "''Dave''" and a = 0
      and cands = "[''Alice'', ''Bob'', ''Charlie'']" and calls = "[(1, ''Bob''), (2, ''Dave'')]"] h
  show ?thesis
    by blast
qed

section \<open>Degenerate candidate lists\<close>

text \<open>
  C6, as stated: when the constructed list holds a name twice, some sequence of
  accepted votes for the name leaves \<open>getVotes\<close> of the name below the number of
  accepted votes for it. For the list \<open>[A, A]\<close> there is no such sequence: the
  tallies are keyed by the name, not by the position in the list, and both
  entries read and write the one counter.
\<close>

theorem duplicate_not_split_counterexample:
  "\<not> (\<exists>calls. unat (getVotes ''A'' (run calls (constructor 0 [''A'', ''A'']))) <
         length (filter (\<lambda>(v, c). c = ''A'') (accepted calls (constructor 0 [''A'', ''A'']))))"
  by (simp add: getVotes_def run_votes constructor_def)

text \<open>
  C6, amended: when the constructed list holds a name at two positions, the
  accepted votes for the name are not split: after every sequence of \<open>vote\<close>
  transactions from construction, \<open>getVotes\<close> of the name is exactly the number
  of accepted votes cast for it.
\<close>

theorem duplicate_counts_all:
  assumes "i < j" and "j < length cands" and "cands ! i = name" and "cands ! j = name"
  shows "unat (getVotes name (run calls (constructor a cands))) =
         length (filter (\<lambda>(v, c). c = name) (accepted calls (constructor a cands)))"
  by (simp add: getVotes_def run_votes constructor_def)

theorem duplicate_counts_all_witness:
  "unat (getVotes ''A'' (run [(1, ''A''), (2, ''A''), (2, ''B''), (3, ''B'')] (constructor 0 [''A'', ''B'', ''A'']))) = 2 \<and>
   length (filter (\<lambda>(v, c). c = ''A'')
     (accepted [(1, ''A''), (2, ''A''), (2, ''B''), (3, ''B'')] (constructor 0 [''A'', ''B'', ''A'']))) = 2"
proof -
  have h1: "(0::nat) < 2" and h2: "2 < length [''A'', ''B'', ''A'']"
    and h3: "[''A'', ''B'', ''A''] ! 0 = ''A''" and h4: "[''A'', ''B'', ''A''] ! 2 = ''A''"
    by simp_all
  have "accepted [(1, ''A''), (2, ''A''), (2, ''B''), (3, ''B'')] (constructor 0 [''A'', ''B'', ''A'']) =
      [(1, ''A''), (2, ''A''), (3, ''B'')]"
    by (simp add: vote_def validCandidate_iff constructor_def checked_inc_def)
  with duplicate_counts_all [OF h1 h2 h3 h4,
      where calls = "[(1, ''A''), (2, ''A''), (2, ''B''), (3, ''B'')]" and a = 0]
  show ?thesis
    by simp
qed

lemma transact_empty: "transact (vote v c) (constructor a []) = constructor a []"
  by (simp add: transact_vote) (simp add: constructor_def)

lemma run_empty: "run calls (constructor a []) = constructor a []"
proof (induction calls)
  case Nil
  show ?case by simp
next
  case (Cons x calls)
  obtain v c where "x = (v, c)"
    by (cases x)
  with Cons show ?case
    by (simp add: transact_empty)
qed

text \<open>
  C7: the constructor takes the empty list as any other; in the ledger it builds,
  after any sequence of \<open>vote\<close> transactions, every \<open>vote\<close> by every caller for
  every name reverts with \<open>Invalid candidate!\<close>, and the storage is still the one
  the constructor left, with no flag set and every tally zero.
\<close>

theorem empty_list_rejects_all:
  "constructor a [] = \<lparr>admin = a, hasVoted = (\<lambda>_. False), votes = (\<lambda>_. 0), candidates = []\<rparr> \<and>
   run calls (constructor a []) = constructor a [] \<and>
   vote v c (run calls (constructor a [])) = Inl InvalidCandidate"
  by (simp add: run_empty) (simp add: constructor_def vote_def validCandidate_iff)

theorem empty_list_rejects_all_witness:
  "vote 1 ''Alice'' (run [(1, ''Alice''), (2, ''Bob'')] (constructor 0 [])) = Inl InvalidCandidate"
  using empty_list_rejects_all [where a = 0 and calls = "[(1, ''Alice''), (2, ''Bob'')]"
      and v = 1 and c = "''Alice''"]
  by blast

section \<open>The admin field and the frame of a vote\<close>

text \<open>
  C8: no operation reads \<open>admin\<close>. In two storages that differ in \<open>admin\<close> only,
  \<open>vote\<close> with the same caller and name reverts with the same error or returns
  storages that again differ in \<open>admin\<close> only, and \<open>getVotes\<close> and the getter of
  \<open>hasVoted\<close> return the same values; in particular a \<open>vote\<close> fails for a caller
  who is the admin exactly when it fails for the same caller when someone else
  is.
\<close>

theorem admin_gates_nothing:
  "vote v c (s\<lparr>admin := a\<rparr>) = map_sum id (\<lambda>t. t\<lparr>admin := a\<rparr>) (vote v c s) \<and>
   getVotes c (s\<lparr>admin := a\<rparr>) = getVotes c s \<and>
   hasVoted (s\<lparr>admin := a\<rparr>) v = hasVoted s v \<and>
   (vote v c (s\<lparr>admin := v\<rparr>) = Inl e) = (vote v c (s\<lparr>admin := a\<rparr>) = Inl e)"
  by (simp add: vote_def validCandidate_iff getVotes_def split: option.splits)

theorem admin_gates_nothing_witness:
  "vote 5 ''Bob'' (constructor 5 [''Alice'', ''Bob'']) =
     map_sum id (\<lambda>t. t\<lparr>admin := 5\<rparr>) (vote 5 ''Bob'' (constructor 7 [''Alice'', ''Bob'']))"
  using admin_gates_nothing [where v = 5 and c = "''Bob''"
      and s = "constructor 7 [''Alice'', ''Bob'']" and a = 5]
  by (simp add: constructor_def)

text \<open>
  C9: a \<open>vote\<close> by \<open>v\<close> for \<open>c\<close> that succeeds changes the tally of \<open>c\<close> and the
  flag of \<open>v\<close> and nothing else: the tally of every other name, the flag of
  every other address, the candidate list and \<open>admin\<close> are as before.
\<close>

theorem vote_frame:
  assumes "vote v c s = Inr s'"
  shows "(\<forall>c'. c' \<noteq> c \<longrightarrow> votes s' c' = votes s c') \<and>
         (\<forall>v'. v' \<noteq> v \<longrightarrow> hasVoted s' v' = hasVoted s v') \<and>
         candidates s' = candidates s \<and> admin s' = admin s"
  using assms by (simp add: vote_Inr_iff)

theorem vote_frame_witness:
  "votes (transact (vote 1 ''Bob'') (constructor 0 [''Alice'', ''Bob'', ''Charlie''])) ''Alice'' = 0 \<and>
   hasVoted (transact (vote 1 ''Bob'') (constructor 0 [''Alice'', ''Bob'', ''Charlie''])) 2 = False \<and>
   candidates (transact (vote 1 ''Bob'') (constructor 0 [''Alice'', ''Bob'', ''Charlie''])) =
     [''Alice'', ''Bob'', ''Charlie''] \<and>
   admin (transact (vote 1 ''Bob'') (constructor 0 [''Alice'', ''Bob'', ''Charlie''])) = 0"
proof -
  let ?s = "constructor 0 [''Alice'', ''Bob'', ''Charlie'']"
  have h: "vote 1 ''Bob'' ?s = Inr (transact (vote 1 ''Bob'') ?s)"
    by (simp add: transact_def vote_def validCandidate_iff constructor_def checked_inc_def)
  have a: "''Alice'' \<noteq> ''Bob''" and b: "(2::address) \<noteq> 1"
    by simp_all
  note f = vote_frame [OF h]
  have "votes (transact (vote 1 ''Bob'') ?s) ''Alice'' = votes ?s ''Alice''"
    by (rule f [THEN conjunct1, THEN spec, THEN mp, OF a])
  moreover have "hasVoted (transact (vote 1 ''Bob'') ?s) 2 = hasVoted ?s 2"
    by (rule f [THEN conjunct2, THEN conjunct1, THEN spec, THEN mp, OF b])
  moreover have "candidates (transact (vote 1 ''Bob'') ?s) = candidates ?s"
    by (rule f [THEN conjunct2, THEN conjunct2, THEN conjunct1])
  moreover have "admin (transact (vote 1 ''Bob'') ?s) = admin ?s"
    by (rule f [THEN conjunct2, THEN conjunct2, THEN conjunct2])
  ultimately show ?thesis
    by (simp add: constructor_def)
qed

end
